theory Spec2Isabelle
  imports Main "HOL-Library.Sublist"
begin

section \<open>Python strings\<close>

text \<open>
  A Python \<open>str\<close> is a sequence of Unicode code points, and \<open>len\<close> counts code points.
  The renderer writes the characters U+2022 (bullet), U+2610 and U+2611 (ballot boxes),
  which are no bytes, so a character is modelled by its code point and a string by the
  list of its code points. \<open>u\<close> reads an ASCII literal as such a string.
\<close>

type_synonym uchar = nat
type_synonym ustring = "uchar list"

definition u :: "string \<Rightarrow> ustring" where
  "u s = map of_char s"

text \<open>\<open>str.isspace\<close> on one character: the code points Python treats as whitespace.\<close>

definition isspace :: "uchar \<Rightarrow> bool" where
  "isspace c \<longleftrightarrow>
     (9 \<le> c \<and> c \<le> 13) \<or> (28 \<le> c \<and> c \<le> 32) \<or> c = 133 \<or> c = 160 \<or> c = 5760 \<or>
     (8192 \<le> c \<and> c \<le> 8202) \<or> c = 8232 \<or> c = 8233 \<or> c = 8239 \<or> c = 8287 \<or>
     c = 12288"

definition lstrip :: "ustring \<Rightarrow> ustring" where
  "lstrip s = dropWhile isspace s"

definition rstrip :: "ustring \<Rightarrow> ustring" where
  "rstrip s = rev (dropWhile isspace (rev s))"

text \<open>\<open>s.strip()\<close>: leading and trailing whitespace removed.\<close>

definition strip :: "ustring \<Rightarrow> ustring" where
  "strip s = rstrip (lstrip s)"

text \<open>
  \<open>s.replace(old, new)\<close>: the occurrences of \<open>old\<close> are found from left to right, the
  search going on after each occurrence found, so they do not overlap. \<open>repl\<close> is that
  scan for a non-empty \<open>old\<close>; for the empty pattern Python puts \<open>new\<close> before every
  character and at the end.
\<close>

fun repl :: "ustring \<Rightarrow> ustring \<Rightarrow> ustring \<Rightarrow> ustring" where
  "repl old new [] = []"
| "repl old new (c # cs) =
     (if old \<noteq> [] \<and> prefix old (c # cs)
      then new @ repl old new (drop (length old) (c # cs))
      else c # repl old new cs)"

definition replace :: "ustring \<Rightarrow> ustring \<Rightarrow> ustring \<Rightarrow> ustring" where
  "replace old new s =
     (if old = [] then new @ concat (map (\<lambda>c. c # new) s) else repl old new s)"

text \<open>\<open>sep.join(parts)\<close>.\<close>

fun join :: "ustring \<Rightarrow> ustring list \<Rightarrow> ustring" where
  "join sep [] = []"
| "join sep [x] = x"
| "join sep (x # y # ys) = x @ sep @ join sep (y # ys)"

text \<open>
  \<open>s.upper()\<close> maps every code point to its full upper-case mapping, which is a string
  of one to three code points, and concatenates. The mapping is Unicode's table, not part
  of the program: it is the parameter \<open>up\<close>.
\<close>

definition upper :: "(uchar \<Rightarrow> ustring) \<Rightarrow> ustring \<Rightarrow> ustring" where
  "upper up s = concat (map up s)"

text \<open>
  The table on the code points below 256, as \<open>str.upper\<close> has it: the letters a to z,
  the micro sign, the sharp s (which becomes SS), the accented letters U+00E0 to U+00FE
  without the division sign, and y with diaeresis. It is used to evaluate the program on
  inputs in that range; from 256 on it leaves the code point as it is.
\<close>

definition upper_latin1 :: "uchar \<Rightarrow> ustring" where
  "upper_latin1 c =
     (if 97 \<le> c \<and> c \<le> 122 then [c - 32]
      else if c = 181 then [924]
      else if c = 223 then [83, 83]
      else if 224 \<le> c \<and> c \<le> 254 \<and> c \<noteq> 247 then [c - 32]
      else if c = 255 then [376]
      else [c])"

section \<open>The two regular-expression substitutions\<close>

text \<open>
  \<open>re.sub(r"\x1b\[[0-9;]*m", "", text)\<close>. A match at a position is ESC, an opening
  bracket, the longest run of digits and semicolons, and the letter m; \<open>ansi_match\<close>
  returns what follows the match. \<open>re.sub\<close> scans from left to right, deletes each match
  and goes on after it.
\<close>

definition ansi_param :: "uchar \<Rightarrow> bool" where
  "ansi_param c \<longleftrightarrow> (48 \<le> c \<and> c \<le> 57) \<or> c = 59"

fun ansi_match :: "ustring \<Rightarrow> ustring option" where
  "ansi_match (e # b # r) =
     (if e = 27 \<and> b = 91
      then (case dropWhile ansi_param r of
              [] \<Rightarrow> None
            | m # r' \<Rightarrow> if m = 109 then Some r' else None)
      else None)"
| "ansi_match _ = None"

function strip_ansi :: "ustring \<Rightarrow> ustring" where
  "strip_ansi [] = []"
| "strip_ansi (c # cs) =
     (case ansi_match (c # cs) of
        Some rest \<Rightarrow> strip_ansi rest
      | None \<Rightarrow> c # strip_ansi cs)"
  by pat_completeness auto
termination
proof (relation "measure length")
  fix c :: uchar and cs rest :: ustring
  assume m: "ansi_match (c # cs) = Some rest"
  show "(rest, c # cs) \<in> measure length"
  proof (cases cs)
    case Nil
    with m show ?thesis by simp
  next
    case (Cons b t)
    have le: "length (dropWhile ansi_param t) \<le> length t"
      by (rule length_dropWhile_le)
    from m Cons obtain d where "dropWhile ansi_param t = d # rest"
      by (auto split: if_splits list.splits)
    with le have "length rest < length t" by simp
    with Cons show ?thesis by simp
  qed
qed simp_all

text \<open>
  \<open>re.sub(r"\n{3,}", "\n\n", text)\<close>. The quantifier is greedy, so a match at a position
  is the whole run of line breaks that starts there, when it has three or more.
\<close>

definition newlines :: "ustring \<Rightarrow> nat" where
  "newlines s = length (takeWhile (\<lambda>c. c = 10) s)"

function compact_blank_lines :: "ustring \<Rightarrow> ustring" where
  "compact_blank_lines [] = []"
| "compact_blank_lines (c # cs) =
     (if 3 \<le> newlines (c # cs)
      then [10, 10] @ compact_blank_lines (dropWhile (\<lambda>c. c = 10) (c # cs))
      else c # compact_blank_lines cs)"
  by pat_completeness auto
termination
proof (relation "measure length")
  fix c :: uchar and cs :: ustring
  assume "3 \<le> newlines (c # cs)"
  then have "c = 10" by (auto simp: newlines_def split: if_splits)
  then have "dropWhile (\<lambda>c. c = 10) (c # cs) = dropWhile (\<lambda>c. c = 10) cs" by simp
  moreover have "length (dropWhile (\<lambda>c. c = 10) cs) \<le> length cs"
    by (rule length_dropWhile_le)
  ultimately show "(dropWhile (\<lambda>c. c = 10) (c # cs), c # cs) \<in> measure length"
    by simp
qed simp_all

section \<open>The parsed document\<close>

text \<open>
  \<open>BeautifulSoup(html_str, "html.parser")\<close> is a tree of tags and strings. The renderer
  reads tag names, children and strings only, never an attribute, so a tag is its name and
  its children. Comments and other special strings give no text and are left out.
\<close>

datatype node = NavigableString ustring | Tag string "node list"

text \<open>All nodes below a node, in document order, as \<open>Tag.descendants\<close> yields them.\<close>

fun descendants :: "node \<Rightarrow> node list" where
  "descendants (NavigableString s) = []"
| "descendants (Tag n cs) = concat (map (\<lambda>c. c # descendants c) cs)"

fun named :: "string list \<Rightarrow> node \<Rightarrow> bool" where
  "named names (NavigableString s) = False"
| "named names (Tag n cs) = (n \<in> set names)"

text \<open>\<open>tag.find_all(names)\<close> and \<open>tag.find(name)\<close>; both search all descendants.\<close>

definition find_all :: "string list \<Rightarrow> node \<Rightarrow> node list" where
  "find_all names t = filter (named names) (descendants t)"

definition find :: "string \<Rightarrow> node \<Rightarrow> node option" where
  "find name t = (case find_all [name] t of [] \<Rightarrow> None | d # _ \<Rightarrow> Some d)"

text \<open>The strings below a node, in document order; a string node yields itself.\<close>

fun all_strings :: "node \<Rightarrow> ustring list" where
  "all_strings (NavigableString s) = [s]"
| "all_strings (Tag n cs) = concat (map all_strings cs)"

text \<open>
  \<open>tag.get_text(separator, strip)\<close>: the strings joined by the separator; with \<open>strip\<close>
  every string is stripped on its own and the empty ones are dropped.
\<close>

definition get_text :: "ustring \<Rightarrow> bool \<Rightarrow> node \<Rightarrow> ustring" where
  "get_text separator strp t =
     join separator
       (if strp then filter (\<lambda>s. s \<noteq> []) (map strip (all_strings t)) else all_strings t)"

section \<open>The passes of \<open>markdown_to_plain_text\<close>\<close>

text \<open>
  Step 3. \<open>find_all("li")\<close> is computed once, then every item gets the string
  \<open>"\<bullet> "\<close> as its left sibling and a line break as its right sibling. The inserted
  nodes are strings, so no item is moved or added, and the loop is the map below over every
  list of children.
\<close>

definition bullet :: ustring where
  "bullet = [8226, 32]"

fun bullet_items :: "node \<Rightarrow> node" where
  "bullet_items (NavigableString s) = NavigableString s"
| "bullet_items (Tag n cs) =
     Tag n (concat (map (\<lambda>c. if named [''li''] c
                              then [NavigableString bullet, bullet_items c, NavigableString [10]]
                              else [bullet_items c]) cs))"

text \<open>
  Step 4. The text of a heading is read with separator \<open>" "\<close> and \<open>strip=True\<close>, and
  \<open>heading.string = ...\<close> replaces all children of the heading by one string. A heading
  inside a heading is detached by then, so the pass does not descend into a heading.
\<close>

definition heading_tags :: "string list" where
  "heading_tags = [''h1'', ''h2'', ''h3'', ''h4'', ''h5'', ''h6'']"

definition heading_string :: "(uchar \<Rightarrow> ustring) \<Rightarrow> node \<Rightarrow> ustring" where
  "heading_string up heading =
     (let text = get_text (u '' '') True heading;
          underline = replicate (length text) 45
      in [10] @ upper up text @ [10] @ underline @ [10])"

fun style_headings :: "(uchar \<Rightarrow> ustring) \<Rightarrow> node \<Rightarrow> node" where
  "style_headings up (NavigableString s) = NavigableString s"
| "style_headings up (Tag n cs) =
     (if n \<in> set heading_tags
      then Tag n [NavigableString (heading_string up (Tag n cs))]
      else Tag n (map (style_headings up) cs))"

text \<open>
  Step 5. The headers and the rows handed to \<open>tabulate\<close>. \<open>tabulate\<close> is a library
  function of its own (column types, alignment, widths); it is the parameter \<open>tab\<close>, with
  the rows first and the headers second as in the call.
\<close>

definition cells_of :: "string list \<Rightarrow> node \<Rightarrow> ustring list" where
  "cells_of names row = map (get_text [] True) (find_all names row)"

definition table_headers :: "node \<Rightarrow> ustring list" where
  "table_headers table =
     (case find ''thead'' table of
        Some thead \<Rightarrow> cells_of [''th''] thead
      | None \<Rightarrow>
          (case find ''tr'' table of
             Some first_row \<Rightarrow> cells_of [''th'', ''td''] first_row
           | None \<Rightarrow> []))"

definition table_rows :: "node \<Rightarrow> ustring list list" where
  "table_rows table =
     (let trs = find_all [''tr''] table;
          start_idx = (if find ''thead'' table = None \<and> 0 < length trs then 1 else 0)
      in filter (\<lambda>cells. cells \<noteq> [])
           (map (cells_of [''td'', ''th'']) (drop start_idx trs)))"

definition table_string ::
  "(ustring list list \<Rightarrow> ustring list \<Rightarrow> ustring) \<Rightarrow> node \<Rightarrow> ustring" where
  "table_string tab table = [10] @ tab (table_rows table) (table_headers table) @ [10]"

fun render_tables ::
  "(ustring list list \<Rightarrow> ustring list \<Rightarrow> ustring) \<Rightarrow> node \<Rightarrow> node" where
  "render_tables tab (NavigableString s) = NavigableString s"
| "render_tables tab (Tag n cs) =
     (if n = ''table''
      then NavigableString (table_string tab (Tag n cs))
      else Tag n (map (render_tables tab) cs))"

text \<open>Step 7: the four replacements, in the order of the source.\<close>

definition checkboxes :: "ustring \<Rightarrow> ustring" where
  "checkboxes text =
     replace (u ''[x]'') [9745]
       (replace (u ''- [x]'') [9745]
          (replace (u ''[ ]'') [9744]
             (replace (u ''- [ ]'') [9744] text)))"

text \<open>Step 10: \<open>if not text.endswith("\n"): text += "\n"\<close>.\<close>

definition ensure_newline :: "ustring \<Rightarrow> ustring" where
  "ensure_newline text = (if suffix [10] text then text else text @ [10])"

text \<open>
  Steps 3 to 6 on the tree, from the contents of the soup object (whose own name is
  \<open>[document]\<close>) to the extracted text.
\<close>

definition soup_text ::
  "(uchar \<Rightarrow> ustring) \<Rightarrow> (ustring list list \<Rightarrow> ustring list \<Rightarrow> ustring) \<Rightarrow> node list \<Rightarrow> ustring" where
  "soup_text up tab soup =
     get_text [] False
       (render_tables tab (style_headings up (bullet_items (Tag ''[document]'' soup))))"

text \<open>
  \<open>markdown_to_plain_text\<close> from step 3 on: its input is the tree that steps 1 and 2
  (the Markdown converter and the HTML parser, both libraries) have built.
\<close>

definition markdown_to_plain_text ::
  "(uchar \<Rightarrow> ustring) \<Rightarrow> (ustring list list \<Rightarrow> ustring list \<Rightarrow> ustring) \<Rightarrow> node list \<Rightarrow> ustring" where
  "markdown_to_plain_text up tab soup =
     strip (ensure_newline (compact_blank_lines (strip_ansi (checkboxes
       (soup_text up tab soup)))))"

section \<open>The fragment wrapper\<close>

text \<open>\<open>html.escape(s)\<close> with its default \<open>quote=True\<close>: five replacements in a row.\<close>

definition html_escape :: "ustring \<Rightarrow> ustring" where
  "html_escape s =
     replace [39] (u ''&#x27;'')
       (replace [34] (u ''&quot;'')
          (replace (u ''>'') (u ''&gt;'')
             (replace (u ''<'') (u ''&lt;'')
                (replace (u ''&'') (u ''&amp;'') s))))"

definition pre_open :: ustring where
  "pre_open =
     u ''<pre style='' @ [34] @ u ''white-space: pre-wrap; '' @
     u ''font-family: -apple-system, BlinkMacSystemFont, '' @
     [39] @ u ''Helvetica Neue'' @ [39] @ u '', Helvetica, Arial, sans-serif; '' @
     u ''font-size: 14px; line-height: 1.4;'' @ [34] @ u ''>''"

definition pre_close :: ustring where
  "pre_close = u ''</pre>''"

definition to_html_preserving_newlines :: "ustring \<Rightarrow> ustring" where
  "to_html_preserving_newlines plain_text = pre_open @ html_escape plain_text @ pre_close"

section \<open>Auxiliary notions for the proofs\<close>

text \<open>No position of the string starts a run of three or more line breaks.\<close>

fun no_long_run :: "ustring \<Rightarrow> bool" where
  "no_long_run [] = True"
| "no_long_run (c # cs) = (newlines (c # cs) \<le> 2 \<and> no_long_run cs)"

text \<open>
  What \<open>html.escape\<close> writes for one character, the five entities, and the property that
  every ampersand of a string begins one of them.
\<close>

definition esc_char :: "uchar \<Rightarrow> ustring" where
  "esc_char c =
     (if c = 38 then u ''&amp;''
      else if c = 60 then u ''&lt;''
      else if c = 62 then u ''&gt;''
      else if c = 34 then u ''&quot;''
      else if c = 39 then u ''&#x27;''
      else [c])"

definition entities :: "ustring list" where
  "entities = [u ''&amp;'', u ''&lt;'', u ''&gt;'', u ''&quot;'', u ''&#x27;'']"

definition starts_entity :: "ustring \<Rightarrow> bool" where
  "starts_entity t = list_ex (\<lambda>e. prefix e t) entities"

fun amp_ok :: "ustring \<Rightarrow> bool" where
  "amp_ok [] = True"
| "amp_ok (c # cs) = ((c = 38 \<longrightarrow> starts_entity (c # cs)) \<and> amp_ok cs)"

text \<open>
  A table as the HTML parser builds it from a \<open>thead\<close> with one header row and a
  \<open>tbody\<close> with one data row.
\<close>

definition example_table :: node where
  "example_table =
     Tag ''table''
       [Tag ''thead'' [Tag ''tr'' [Tag ''th'' [NavigableString (u ''Name'')],
                                   Tag ''th'' [NavigableString (u ''Age'')]]],
        Tag ''tbody'' [Tag ''tr'' [Tag ''td'' [NavigableString (u ''Ann'')],
                                   Tag ''td'' [NavigableString (u ''30'')]]]]"

text \<open>
  The recursive equation of \<open>compact_blank_lines\<close> is used through the two conditional
  lemmas \<open>compact_long\<close> and \<open>compact_short\<close> below, and by name on concrete strings.
\<close>

declare compact_blank_lines.simps(2) [simp del]

lemmas render_defs =
  markdown_to_plain_text_def soup_text_def get_text_def u_def strip_def lstrip_def rstrip_def
  isspace_def ensure_newline_def checkboxes_def replace_def newlines_def heading_tags_def
  compact_blank_lines.simps(2) suffix_to_prefix

lemmas tree_defs =
  table_headers_def table_rows_def table_string_def find_def find_all_def cells_of_def
  heading_string_def upper_def upper_latin1_def Let_def

section \<open>Whitespace at the ends of the rendered text\<close>

lemma lstrip_head: "lstrip s = c # r \<Longrightarrow> \<not> isspace c"
  unfolding lstrip_def by (metis hd_dropWhile list.distinct(1) list.sel(1))

lemma rstrip_last: "rstrip s = r @ [c] \<Longrightarrow> \<not> isspace c"
proof -
  assume "rstrip s = r @ [c]"
  then have "dropWhile isspace (rev s) = c # rev r"
    unfolding rstrip_def by (metis rev.simps(2) rev_rev_ident rev_append append_Nil rev_swap)
  then show ?thesis by (metis hd_dropWhile list.distinct(1) list.sel(1))
qed

lemma rstrip_head: "\<not> isspace c \<Longrightarrow> rstrip (c # r) = c # rstrip r"
  unfolding rstrip_def by (simp add: dropWhile_append)

lemma strip_head: "strip s = c # r \<Longrightarrow> \<not> isspace c"
proof (cases "lstrip s")
  case Nil
  assume "strip s = c # r"
  with Nil show ?thesis by (simp add: strip_def rstrip_def)
next
  case (Cons d t)
  assume s: "strip s = c # r"
  from Cons have d: "\<not> isspace d" by (rule lstrip_head)
  with s Cons have "c = d" by (simp add: strip_def rstrip_head)
  with d show ?thesis by simp
qed

lemma strip_last: "strip s = r @ [c] \<Longrightarrow> \<not> isspace c"
  unfolding strip_def by (rule rstrip_last)

text \<open>
  Claim C10. The string returned by \<open>markdown_to_plain_text\<close> has no whitespace character
  at either end; in particular it neither begins nor ends with a line break.
\<close>

theorem rendered_text_is_trimmed:
  assumes "markdown_to_plain_text up tab soup \<noteq> []"
  shows "\<not> isspace (hd (markdown_to_plain_text up tab soup)) \<and>
         \<not> isspace (last (markdown_to_plain_text up tab soup)) \<and>
         hd (markdown_to_plain_text up tab soup) \<noteq> 10 \<and>
         last (markdown_to_plain_text up tab soup) \<noteq> 10"
proof -
  define r where "r = markdown_to_plain_text up tab soup"
  obtain t where t: "r = strip t"
    by (simp add: r_def markdown_to_plain_text_def)
  from assms have ne: "r \<noteq> []" by (simp add: r_def)
  then obtain c r1 where c: "r = c # r1" by (cases r) auto
  from ne obtain r2 d where d: "r = r2 @ [d]" by (cases r rule: rev_cases) auto
  from c t have 1: "\<not> isspace c" by (metis strip_head)
  from d t have 2: "\<not> isspace d" by (metis strip_last)
  have nl: "isspace 10" by (simp add: isspace_def)
  from 1 2 nl have 3: "c \<noteq> 10" "d \<noteq> 10" by auto
  have hc: "hd r = c" using c by simp
  have ld: "last r = d" using d by simp
  show ?thesis unfolding r_def[symmetric] hc ld using 1 2 3 by simp
qed

theorem rendered_text_is_trimmed_witness:
  "markdown_to_plain_text upper_latin1 (\<lambda>rows headers. [])
     [Tag ''p'' [NavigableString (u '' Hi '')]] \<noteq> [] \<and>
   \<not> isspace (hd (markdown_to_plain_text upper_latin1 (\<lambda>rows headers. [])
     [Tag ''p'' [NavigableString (u '' Hi '')]])) \<and>
   \<not> isspace (last (markdown_to_plain_text upper_latin1 (\<lambda>rows headers. [])
     [Tag ''p'' [NavigableString (u '' Hi '')]]))"
proof -
  have h: "markdown_to_plain_text upper_latin1 (\<lambda>rows headers. [])
             [Tag ''p'' [NavigableString (u '' Hi '')]] \<noteq> []"
    by (simp add: render_defs)
  show ?thesis using h rendered_text_is_trimmed [OF h] by simp
qed

section \<open>The trailing line break\<close>

text \<open>
  Claim C1. The rendered text is said to end with exactly one line break. Step 10 appends
  one, and the \<open>return\<close> statement strips it again: for the document \<open><p>Hi</p>\<close> the
  result is \<open>Hi\<close>, with no line break at its end.
\<close>

theorem trailing_line_break_is_stripped:
  "markdown_to_plain_text up tab [Tag ''p'' [NavigableString (u ''Hi'')]] = u ''Hi'' \<and>
   \<not> suffix [10] (markdown_to_plain_text up tab [Tag ''p'' [NavigableString (u ''Hi'')]])"
  by (simp add: render_defs)

section \<open>Compacting blank lines\<close>

lemma newlines_Cons: "newlines (c # cs) = (if c = 10 then Suc (newlines cs) else 0)"
  by (simp add: newlines_def)

lemma newlines_Nil: "newlines [] = 0"
  by (simp add: newlines_def)


lemma newlines_dropWhile: "newlines (dropWhile (\<lambda>c. c = 10) s) = 0"
  by (induction s) (simp_all add: newlines_def)

lemma compact_long:
  assumes "3 \<le> newlines (c # cs)"
  shows "compact_blank_lines (c # cs) =
         10 # 10 # compact_blank_lines (dropWhile (\<lambda>c. c = 10) (c # cs))"
  by (subst compact_blank_lines.simps(2)) (simp only: assms if_True append_Cons append_Nil)

lemma compact_short:
  assumes "\<not> 3 \<le> newlines (c # cs)"
  shows "compact_blank_lines (c # cs) = c # compact_blank_lines cs"
  by (subst compact_blank_lines.simps(2)) (simp only: assms if_False)

lemma newlines_compact:
  "newlines (compact_blank_lines s) = (if 3 \<le> newlines s then 2 else newlines s)"
proof (induction s rule: compact_blank_lines.induct)
  case 1
  show ?case by (simp add: newlines_Nil)
next
  case (2 c cs)
  show ?case
  proof (cases "3 \<le> newlines (c # cs)")
    case True
    define d where "d = dropWhile (\<lambda>c. c = 10) (c # cs)"
    have d0: "newlines d = 0" unfolding d_def by (rule newlines_dropWhile)
    have "newlines (compact_blank_lines d) = (if 3 \<le> newlines d then 2 else newlines d)"
      unfolding d_def by (rule "2.IH"(1) [OF True])
    with d0 have "newlines (compact_blank_lines d) = 0" by simp
    moreover have "compact_blank_lines (c # cs) = 10 # 10 # compact_blank_lines d"
      unfolding d_def by (rule compact_long [OF True])
    ultimately show ?thesis using True by (simp add: newlines_Cons)
  next
    case False
    have ih: "newlines (compact_blank_lines cs) = (if 3 \<le> newlines cs then 2 else newlines cs)"
      by (rule "2.IH"(2) [OF False])
    have eq: "compact_blank_lines (c # cs) = c # compact_blank_lines cs"
      by (rule compact_short [OF False])
    show ?thesis
    proof (cases "c = 10")
      case True
      with False have "newlines cs \<le> 1" by (simp add: newlines_Cons)
      with ih have "newlines (compact_blank_lines cs) = newlines cs" by simp
      with False True show ?thesis unfolding eq by (simp add: newlines_Cons)
    next
      case False
      then show ?thesis unfolding eq by (simp add: newlines_Cons)
    qed
  qed
qed

lemma compact_fixes: "no_long_run s \<Longrightarrow> compact_blank_lines s = s"
proof (induction s)
  case Nil
  show ?case by simp
next
  case (Cons c cs)
  from Cons.prems have "\<not> 3 \<le> newlines (c # cs)" and "no_long_run cs" by simp_all
  then show ?case using Cons.IH by (simp add: compact_short)
qed

lemma no_long_run_compact: "no_long_run (compact_blank_lines s)"
proof (induction s rule: compact_blank_lines.induct)
  case 1
  show ?case by simp
next
  case (2 c cs)
  show ?case
  proof (cases "3 \<le> newlines (c # cs)")
    case True
    define d where "d = dropWhile (\<lambda>c. c = 10) (c # cs)"
    have ih: "no_long_run (compact_blank_lines d)"
      unfolding d_def by (rule "2.IH"(1) [OF True])
    have "newlines d = 0" unfolding d_def by (rule newlines_dropWhile)
    then have n0: "newlines (compact_blank_lines d) = 0"
      by (simp add: newlines_compact)
    have eq: "compact_blank_lines (c # cs) = 10 # 10 # compact_blank_lines d"
      unfolding d_def by (rule compact_long [OF True])
    show ?thesis unfolding eq using ih n0 by (simp add: newlines_Cons)
  next
    case False
    have ih: "no_long_run (compact_blank_lines cs)"
      by (rule "2.IH"(2) [OF False])
    have eq: "compact_blank_lines (c # cs) = c # compact_blank_lines cs"
      by (rule compact_short [OF False])
    have "newlines (compact_blank_lines (c # cs)) \<le> 2"
      using False unfolding newlines_compact by simp
    then show ?thesis unfolding eq using ih by simp
  qed
qed

text \<open>
  Claim C5. Compacting blank lines is idempotent: applying \<open>compact_blank_lines\<close> to its
  own output gives that output again, for every string.
\<close>

theorem compact_blank_lines_idempotent:
  "compact_blank_lines (compact_blank_lines s) = compact_blank_lines s"
  by (rule compact_fixes) (rule no_long_run_compact)



section \<open>Headers and rows of a table\<close>

text \<open>
  Claim C2. With an explicit header group the data rows are said to be exactly the rows
  outside the header. \<open>find_all("tr")\<close> also finds the row inside \<open>thead\<close>, and
  \<open>start_idx\<close> is 0 when a \<open>thead\<close> exists, so the header row comes again as the first data
  row, although the source comments the line with "skip thead row if present".
\<close>

theorem header_row_repeated_in_rows:
  "table_headers example_table = [u ''Name'', u ''Age''] \<and>
   table_rows example_table = [[u ''Name'', u ''Age''], [u ''Ann'', u ''30'']]"
  by (simp add: example_table_def tree_defs render_defs)

section \<open>The underline of a heading\<close>

text \<open>
  Claim C3. The underline is said to be as long as the upper-cased text above it. Its length
  is taken from the text before upper-casing, and upper-casing can lengthen a string: the
  heading \<open>Stra\<ss>e\<close> (U+00DF is the sharp s) is rendered as \<open>STRASSE\<close>, seven characters,
  above six dashes.
\<close>

theorem underline_shorter_than_heading:
  "heading_string upper_latin1 (Tag ''h1'' [NavigableString (u ''Stra'' @ [223] @ u ''e'')]) =
     [10] @ u ''STRASSE'' @ [10] @ u ''------'' @ [10]"
  by (simp add: tree_defs render_defs)


section \<open>Escaping in the fragment wrapper\<close>

lemma repl_single: "repl [x] new s = concat (map (\<lambda>c. if c = x then new else [c]) s)"
  by (induction s) auto

lemma replace_single: "replace [x] new s = concat (map (\<lambda>c. if c = x then new else [c]) s)"
  by (simp add: replace_def repl_single)

lemma html_escape_Nil: "html_escape [] = []"
  by (simp add: html_escape_def replace_def u_def)

lemma html_escape_Cons: "html_escape (c # s) = esc_char c @ html_escape s"
  by (simp add: html_escape_def u_def replace_single esc_char_def)

lemma esc_char_not_Nil: "esc_char c \<noteq> []"
  by (simp add: esc_char_def u_def)

lemma esc_char_unique: "esc_char c @ x = esc_char d @ y \<Longrightarrow> c = d"
  by (auto simp: esc_char_def u_def split: if_splits)

lemma html_escape_inj: "html_escape s1 = html_escape s2 \<Longrightarrow> s1 = s2"
proof (induction s1 arbitrary: s2)
  case Nil
  then show ?case
    by (cases s2) (simp_all add: html_escape_Nil html_escape_Cons esc_char_not_Nil)
next
  case (Cons c s1)
  show ?case
  proof (cases s2)
    case Nil
    with Cons.prems show ?thesis
      by (simp add: html_escape_Nil html_escape_Cons esc_char_not_Nil)
  next
    case (Cons d t)
    with Cons.prems have eq: "esc_char c @ html_escape s1 = esc_char d @ html_escape t"
      by (simp add: html_escape_Cons)
    then have cd: "c = d" by (rule esc_char_unique)
    with eq have "html_escape s1 = html_escape t" by simp
    then have "s1 = t" by (rule Cons.IH)
    with cd Cons show ?thesis by simp
  qed
qed

text \<open>
  Claim C7. The fragment wrapper is injective: two different plain texts never give the
  same fragment, so the plain text can be read back from the fragment.
\<close>

theorem wrapper_injective:
  "s1 \<noteq> s2 \<Longrightarrow> to_html_preserving_newlines s1 \<noteq> to_html_preserving_newlines s2"
  by (auto simp: to_html_preserving_newlines_def dest: html_escape_inj)

theorem wrapper_injective_witness:
  "u ''<'' \<noteq> u ''&lt;'' \<and>
   to_html_preserving_newlines (u ''<'') \<noteq> to_html_preserving_newlines (u ''&lt;'')"
proof -
  have h: "u ''<'' \<noteq> u ''&lt;''" by (simp add: u_def)
  show ?thesis using h wrapper_injective [OF h] by simp
qed

lemma reserved_not_in_esc_char:
  "60 \<notin> set (esc_char c)" "62 \<notin> set (esc_char c)" "34 \<notin> set (esc_char c)"
  "39 \<notin> set (esc_char c)"
  by (simp_all add: esc_char_def u_def)

lemma reserved_not_in_escape:
  "60 \<notin> set (html_escape s) \<and> 62 \<notin> set (html_escape s) \<and> 34 \<notin> set (html_escape s) \<and>
   39 \<notin> set (html_escape s)"
  by (induction s) (simp_all add: html_escape_Nil html_escape_Cons reserved_not_in_esc_char)

lemma amp_ok_esc_char: "amp_ok t \<Longrightarrow> amp_ok (esc_char c @ t)"
  by (simp add: esc_char_def u_def starts_entity_def entities_def)

lemma amp_ok_escape: "amp_ok (html_escape s)"
  by (induction s) (simp_all add: html_escape_Nil html_escape_Cons amp_ok_esc_char)

lemma amp_ok_nth:
  "amp_ok t \<Longrightarrow> i < length t \<Longrightarrow> t ! i = 38 \<Longrightarrow> starts_entity (drop i t)"
proof (induction t arbitrary: i)
  case Nil
  then show ?case by simp
next
  case (Cons c cs)
  show ?case
  proof (cases i)
    case 0
    with Cons.prems show ?thesis by simp
  next
    case (Suc j)
    with Cons.prems have "amp_ok cs" "j < length cs" "cs ! j = 38" by simp_all
    then have "starts_entity (drop j cs)" by (rule Cons.IH)
    with Suc show ?thesis by simp
  qed
qed

text \<open>
  Claim C4. The fragment is the fixed opening markup, the escaped text and the fixed closing
  markup. The escaped text contains no \<open><\<close>, no \<open>>\<close> and no quote character (double or
  single), and every \<open>&\<close> in it begins one of the five entities that the escaping writes:
  no reserved character of the input is left unescaped.
\<close>

theorem escaped_fragment_has_no_reserved_character:
  "to_html_preserving_newlines s = pre_open @ html_escape s @ pre_close \<and>
   60 \<notin> set (html_escape s) \<and> 62 \<notin> set (html_escape s) \<and>
   34 \<notin> set (html_escape s) \<and> 39 \<notin> set (html_escape s) \<and>
   (\<forall>i < length (html_escape s).
      html_escape s ! i = 38 \<longrightarrow> starts_entity (drop i (html_escape s)))"
  using reserved_not_in_escape [of s] amp_ok_nth [OF amp_ok_escape, of _ s]
  by (simp add: to_html_preserving_newlines_def)

theorem escaped_fragment_witness:
  "html_escape (u ''a&<'') = u ''a&amp;&lt;'' \<and>
   1 < length (html_escape (u ''a&<'')) \<and> html_escape (u ''a&<'') ! 1 = 38 \<and>
   starts_entity (drop 1 (html_escape (u ''a&<'')))"
proof -
  have e: "html_escape (u ''a&<'') = u ''a&amp;&lt;''"
    by (simp add: u_def html_escape_Cons html_escape_Nil esc_char_def)
  have h: "1 < length (html_escape (u ''a&<''))" "html_escape (u ''a&<'') ! 1 = 38"
    unfolding e by (simp_all add: u_def)
  show ?thesis
    using e h escaped_fragment_has_no_reserved_character [of "u ''a&<''"] by simp
qed


end
